theory Spec2Isabelle
  imports Main
begin

section \<open>The mock user-management backend (src/api/ScalyrBackend.js)\<close>

text \<open>
  The backend keeps one array, \<^verbatim>\<open>this._userList\<close>, of user record objects. JavaScript
  objects are references: \<^verbatim>\<open>_findUser\<close> hands out the very object stored in the array,
  \<^verbatim>\<open>markAsActive\<close> writes a field through that reference, \<^verbatim>\<open>revokeAccess\<close> looks the
  reference up again with \<^verbatim>\<open>indexOf\<close> (identity of objects), and \<^verbatim>\<open>getUsers\<close> returns
  fresh copies. The model therefore has an explicit store of objects: a reference is an
  address, the store is the list of all objects allocated so far (an object literal
  allocates at the next free address), and the array holds references.

  Every public method returns a promise that a timer settles 100 ms later with a value
  that is fixed when the method returns. The model returns that outcome directly,
  together with the backend after the call; the delay itself is not modelled.
\<close>

subsection \<open>Data\<close>

type_synonym ref = nat

record user =
  email :: string
  accessLevel :: string
  state :: string

record backend =
  heap :: "user list"
  userList :: "ref list"

text \<open>The value a promise settles with: \<^verbatim>\<open>{status, users}\<close>, \<^verbatim>\<open>{status}\<close> or
  \<^verbatim>\<open>{status, message}\<close>; a field the object literal does not have is \<open>None\<close>.\<close>

record response =
  status :: string
  users :: "ref list option"
  message :: "string option"

datatype promise = Resolved response | Rejected response

definition AccessLevel_READ_ONLY :: string where
  "AccessLevel_READ_ONLY = ''read-only''"

definition AccessLevel_FULL :: string where
  "AccessLevel_FULL = ''full''"

definition AccessLevel_LIMITED :: string where
  "AccessLevel_LIMITED = ''limited''"

definition AccessLevel :: "(string \<times> string) list" where
  "AccessLevel =
     [(''READ_ONLY'', AccessLevel_READ_ONLY),
      (''FULL'', AccessLevel_FULL),
      (''LIMITED'', AccessLevel_LIMITED)]"

definition UserState_ACTIVE :: string where
  "UserState_ACTIVE = ''active''"

definition UserState_INVITED :: string where
  "UserState_INVITED = ''invited''"

subsection \<open>The JavaScript built-ins the code calls\<close>

text \<open>\<^verbatim>\<open>Object.values(o)\<close>: the property values in insertion order.\<close>

definition Object_values :: "(string \<times> 'a) list \<Rightarrow> 'a list" where
  "Object_values obj = map snd obj"

text \<open>\<^verbatim>\<open>xs.indexOf(x)\<close>: the first index holding \<open>x\<close> (strict equality: the same
  string, the same object reference), or \<open>-1\<close>.\<close>

fun indexOf_from :: "'a list \<Rightarrow> 'a \<Rightarrow> int \<Rightarrow> int" where
  "indexOf_from [] x i = - 1"
| "indexOf_from (y # ys) x i = (if y = x then i else indexOf_from ys x (i + 1))"

definition indexOf :: "'a list \<Rightarrow> 'a \<Rightarrow> int" where
  "indexOf xs x = indexOf_from xs x 0"

text \<open>\<^verbatim>\<open>xs.splice(start, deleteCount)\<close>, the array afterwards: a negative start counts
  from the end, a start past the end is the end, and the count is clamped to what is
  there.\<close>

definition splice :: "int \<Rightarrow> int \<Rightarrow> 'a list \<Rightarrow> 'a list" where
  "splice start deleteCount xs =
     (let len = int (length xs);
          actualStart = (if start < 0 then max (len + start) 0 else min start len);
          actualDeleteCount = min (max deleteCount 0) (len - actualStart)
      in take (nat actualStart) xs @ drop (nat (actualStart + actualDeleteCount)) xs)"

text \<open>An object literal \<^verbatim>\<open>{...}\<close>: a new object at the next free address.\<close>

definition new_object :: "user \<Rightarrow> backend \<Rightarrow> ref \<times> backend" where
  "new_object u s = (length (heap s), s\<lparr>heap := heap s @ [u]\<rparr>)"

subsection \<open>Private helpers\<close>

definition createUserRecord :: "string \<Rightarrow> string \<Rightarrow> string \<Rightarrow> backend \<Rightarrow> ref \<times> backend" where
  "createUserRecord emailAddress lvl userState s =
     new_object \<lparr>email = emailAddress, accessLevel = lvl, state = userState\<rparr> s"

fun findUser_loop :: "user list \<Rightarrow> ref list \<Rightarrow> string \<Rightarrow> ref option" where
  "findUser_loop h [] emailAddress = None"
| "findUser_loop h (r # rs) emailAddress =
     (if email (h ! r) = emailAddress then Some r else findUser_loop h rs emailAddress)"

definition findUser :: "string \<Rightarrow> backend \<Rightarrow> ref option" where
  "findUser emailAddress s = findUser_loop (heap s) (userList s) emailAddress"

definition copyUserRecord :: "ref \<Rightarrow> backend \<Rightarrow> ref \<times> backend" where
  "copyUserRecord source s =
     new_object \<lparr>email = email (heap s ! source),
                 accessLevel = accessLevel (heap s ! source),
                 state = state (heap s ! source)\<rparr> s"

definition hasValue :: "(string \<times> string) list \<Rightarrow> string \<Rightarrow> bool" where
  "hasValue inputObject v \<longleftrightarrow> indexOf (Object_values inputObject) v \<ge> 0"

definition returnPromise :: "bool \<Rightarrow> response \<Rightarrow> promise" where
  "returnPromise success v = (if success then Resolved v else Rejected v)"

definition returnResult :: "response \<Rightarrow> promise" where
  "returnResult result = returnPromise True result"

definition returnError :: "string \<Rightarrow> string \<Rightarrow> promise" where
  "returnError errorCode msg =
     returnPromise False \<lparr>status = errorCode, users = None, message = Some msg\<rparr>"

definition returnSuccess :: promise where
  "returnSuccess = returnResult \<lparr>status = ''success'', users = None, message = None\<rparr>"

subsection \<open>The constructor\<close>

definition ScalyrBackend :: backend where
  "ScalyrBackend =
     (let s0 = \<lparr>heap = [], userList = []\<rparr>;
          (r1, s1) = createUserRecord ''czerwin@scalyr.com'' AccessLevel_FULL UserState_ACTIVE s0;
          (r2, s2) = createUserRecord ''asma@scalyr.com'' AccessLevel_FULL UserState_ACTIVE s1;
          (r3, s3) = createUserRecord ''jeff@scalyr.com'' AccessLevel_FULL UserState_INVITED s2;
          (r4, s4) = createUserRecord ''claudia@scalyr.com'' AccessLevel_READ_ONLY UserState_ACTIVE s3;
          (r5, s5) = createUserRecord ''steve@scalyr.com'' AccessLevel_LIMITED UserState_INVITED s4
      in s5\<lparr>userList := [r1, r2, r3, r4, r5]\<rparr>)"

subsection \<open>Public methods\<close>

fun getUsers_loop :: "ref list \<Rightarrow> backend \<Rightarrow> ref list \<times> backend" where
  "getUsers_loop [] s = ([], s)"
| "getUsers_loop (r # rs) s =
     (let (c, s1) = copyUserRecord r s;
          (cs, s2) = getUsers_loop rs s1
      in (c # cs, s2))"

definition getUsers :: "backend \<Rightarrow> promise \<times> backend" where
  "getUsers s =
     (let (result, s') = getUsers_loop (userList s) s
      in (returnResult \<lparr>status = ''success'', users = Some result, message = None\<rparr>, s'))"

text \<open>The first loop of \<^verbatim>\<open>inviteUsers\<close>: the first address of the batch that
  \<^verbatim>\<open>_findUser\<close> finds, if any.\<close>

fun inviteUsers_check :: "string list \<Rightarrow> backend \<Rightarrow> string option" where
  "inviteUsers_check [] s = None"
| "inviteUsers_check (u # us) s =
     (case findUser u s of Some r \<Rightarrow> Some u | None \<Rightarrow> inviteUsers_check us s)"

text \<open>The second loop: one \<^verbatim>\<open>push\<close> of a new record per address.\<close>

fun inviteUsers_push :: "string list \<Rightarrow> string \<Rightarrow> backend \<Rightarrow> backend" where
  "inviteUsers_push [] lvl s = s"
| "inviteUsers_push (u # us) lvl s =
     (let (r, s1) = createUserRecord u lvl UserState_INVITED s
      in inviteUsers_push us lvl (s1\<lparr>userList := userList s1 @ [r]\<rparr>))"

definition inviteUsers :: "string list \<Rightarrow> string \<Rightarrow> backend \<Rightarrow> promise \<times> backend" where
  "inviteUsers us lvl s =
     (if \<not> hasValue AccessLevel lvl then
        (returnError ''invalidAccess''
           (''The specified accessLevel '' @ [CHR 0x22] @ lvl @ [CHR 0x22] @ '' is not valid.''), s)
      else
        (case inviteUsers_check us s of
           Some u \<Rightarrow>
             (returnError ''userExists''
                (''The specified user '' @ [CHR 0x22] @ u @ [CHR 0x22] @ '' already exists.''), s)
         | None \<Rightarrow> (returnSuccess, inviteUsers_push us lvl s)))"

definition resendInvite :: "string \<Rightarrow> backend \<Rightarrow> promise \<times> backend" where
  "resendInvite u s =
     (case findUser u s of
        None \<Rightarrow>
          (returnError ''userNotExists''
             (''The specified user '' @ [CHR 0x22] @ u @ [CHR 0x22] @ '' does not exists.''), s)
      | Some targetUser \<Rightarrow> (returnSuccess, s))"

definition revokeAccess :: "string \<Rightarrow> backend \<Rightarrow> promise \<times> backend" where
  "revokeAccess u s =
     (case findUser u s of
        None \<Rightarrow>
          (returnError ''userNotExists''
             (''The specified user '' @ [CHR 0x22] @ u @ [CHR 0x22] @ '' does not exists.''), s)
      | Some targetUser \<Rightarrow>
          (returnSuccess,
           s\<lparr>userList := splice (indexOf (userList s) targetUser) 1 (userList s)\<rparr>))"

definition markAsActive :: "string \<Rightarrow> backend \<Rightarrow> promise \<times> backend" where
  "markAsActive u s =
     (case findUser u s of
        None \<Rightarrow>
          (returnError ''userNotExists''
             (''The specified user '' @ [CHR 0x22] @ u @ [CHR 0x22] @ '' does not exists.''), s)
      | Some targetUser \<Rightarrow>
          (returnSuccess,
           s\<lparr>heap := (heap s)[targetUser := (heap s ! targetUser)\<lparr>state := UserState_ACTIVE\<rparr>]\<rparr>))"

subsection \<open>Calls and sequences of calls\<close>

datatype operation =
    GetUsers
  | InviteUsers "string list" string
  | ResendInvite string
  | RevokeAccess string
  | MarkAsActive string

fun exec :: "operation \<Rightarrow> backend \<Rightarrow> promise \<times> backend" where
  "exec GetUsers s = getUsers s"
| "exec (InviteUsers us lvl) s = inviteUsers us lvl s"
| "exec (ResendInvite u) s = resendInvite u s"
| "exec (RevokeAccess u) s = revokeAccess u s"
| "exec (MarkAsActive u) s = markAsActive u s"

fun run :: "operation list \<Rightarrow> backend \<Rightarrow> backend" where
  "run [] s = s"
| "run (c # cs) s = run cs (snd (exec c s))"

subsection \<open>What a caller observes\<close>

text \<open>The records of the directory, in array order; the records behind a list of
  references a promise delivered; whether an address is in the directory.\<close>

definition directory :: "backend \<Rightarrow> user list" where
  "directory s = map (\<lambda>r. heap s ! r) (userList s)"

definition records_of :: "backend \<Rightarrow> ref list \<Rightarrow> user list" where
  "records_of s rs = map (\<lambda>r. heap s ! r) rs"

definition present :: "string \<Rightarrow> backend \<Rightarrow> bool" where
  "present e s \<longleftrightarrow> (\<exists>u \<in> set (directory s). email u = e)"

text \<open>No dangling reference: every reference in the array is an allocated object.
  JavaScript guarantees it; in the model it is an invariant of the methods.\<close>

definition allocated :: "backend \<Rightarrow> bool" where
  "allocated s \<longleftrightarrow> (\<forall>r \<in> set (userList s). r < length (heap s))"

section \<open>Lemmas about the helpers\<close>

subsection \<open>Built-ins\<close>

lemma indexOf_from_first:
  "x \<notin> set pre \<Longrightarrow> indexOf_from (pre @ x # post) x i = i + int (length pre)"
  by (induction pre arbitrary: i) auto

lemma indexOf_first: "x \<notin> set pre \<Longrightarrow> indexOf (pre @ x # post) x = int (length pre)"
  by (simp add: indexOf_def indexOf_from_first)

lemma splice_one: "splice (int (length pre)) 1 (pre @ x # post) = pre @ post"
  by (simp add: splice_def Let_def nat_add_distrib)

lemma hasValue_AccessLevel:
  "hasValue AccessLevel lvl \<longleftrightarrow> lvl \<in> {''read-only'', ''full'', ''limited''}"
  by (auto simp: hasValue_def indexOf_def Object_values_def AccessLevel_def
      AccessLevel_READ_ONLY_def AccessLevel_FULL_def AccessLevel_LIMITED_def)

subsection \<open>Reading the store\<close>

lemma nth_fresh: "map (\<lambda>r. (h @ xs) ! r) [length h ..< length h + length xs] = xs"
proof (rule nth_equalityI)
  show "length (map (\<lambda>r. (h @ xs) ! r) [length h ..< length h + length xs]) = length xs"
    by simp
next
  fix i
  assume "i < length (map (\<lambda>r. (h @ xs) ! r) [length h ..< length h + length xs])"
  then have "i < length xs" by simp
  then show "map (\<lambda>r. (h @ xs) ! r) [length h ..< length h + length xs] ! i = xs ! i"
    by (simp add: nth_append)
qed

lemma nth_old:
  "\<forall>r \<in> set rs. r < length h \<Longrightarrow> map (\<lambda>r. (h @ xs) ! r) rs = map (\<lambda>r. h ! r) rs"
  by (auto simp: nth_append)

subsection \<open>The linear search\<close>

lemma findUser_loop_None_iff:
  "findUser_loop h rs e = None \<longleftrightarrow> (\<forall>r \<in> set rs. email (h ! r) \<noteq> e)"
  by (induction rs) auto

lemma findUser_None_iff: "findUser e s = None \<longleftrightarrow> \<not> present e s"
  by (simp add: findUser_def present_def directory_def findUser_loop_None_iff)

lemma present_iff_findUser: "present e s \<longleftrightarrow> findUser e s \<noteq> None"
  by (simp add: findUser_None_iff)

text \<open>A hit is the first reference of the array whose record has the address.\<close>

lemma findUser_loop_Some:
  "findUser_loop h rs e = Some r \<Longrightarrow>
     \<exists>pre post. rs = pre @ r # post \<and> email (h ! r) = e \<and> (\<forall>q \<in> set pre. email (h ! q) \<noteq> e)"
proof (induction rs)
  case Nil
  then show ?case by simp
next
  case (Cons a rs)
  show ?case
  proof (cases "email (h ! a) = e")
    case True
    with Cons.prems have "a = r" by simp
    with True have "a # rs = [] @ r # rs \<and> email (h ! r) = e
        \<and> (\<forall>q \<in> set []. email (h ! q) \<noteq> e)"
      by simp
    then show ?thesis by blast
  next
    case False
    with Cons.prems have "findUser_loop h rs e = Some r" by simp
    from Cons.IH [OF this] obtain pre post where
      "rs = pre @ r # post" "email (h ! r) = e" "\<forall>q \<in> set pre. email (h ! q) \<noteq> e"
      by blast
    with False have "a # rs = (a # pre) @ r # post \<and> email (h ! r) = e
        \<and> (\<forall>q \<in> set (a # pre). email (h ! q) \<noteq> e)"
      by simp
    then show ?thesis by blast
  qed
qed

subsection \<open>The loops of \<^verbatim>\<open>inviteUsers\<close> and \<^verbatim>\<open>getUsers\<close>\<close>

lemma inviteUsers_check_None_iff:
  "inviteUsers_check us s = None \<longleftrightarrow> (\<forall>e \<in> set us. \<not> present e s)"
  by (induction us) (auto simp: present_iff_findUser split: option.splits)

lemma inviteUsers_push_eq:
  "inviteUsers_push us lvl s =
     s\<lparr>heap := heap s @ map (\<lambda>e. \<lparr>email = e, accessLevel = lvl, state = ''invited''\<rparr>) us,
       userList := userList s @ [length (heap s) ..< length (heap s) + length us]\<rparr>"
proof (induction us arbitrary: s)
  case Nil
  then show ?case by simp
next
  case (Cons u us)
  show ?case
    by (simp del: upt_Suc add: Cons.IH createUserRecord_def new_object_def
        UserState_INVITED_def upt_conv_Cons)
qed

lemma getUsers_loop_eq:
  "\<forall>r \<in> set rs. r < length (heap s) \<Longrightarrow>
   getUsers_loop rs s =
     ([length (heap s) ..< length (heap s) + length rs],
      s\<lparr>heap := heap s @ map (\<lambda>r. heap s ! r) rs\<rparr>)"
proof (induction rs arbitrary: s)
  case Nil
  then show ?case by simp
next
  case (Cons r rs)
  let ?s1 = "s\<lparr>heap := heap s @ [heap s ! r]\<rparr>"
  have c: "copyUserRecord r s = (length (heap s), ?s1)"
    by (simp add: copyUserRecord_def new_object_def)
  have "\<forall>q \<in> set rs. q < length (heap ?s1)"
    using Cons.prems by auto
  from Cons.IH [OF this] have
    "getUsers_loop rs ?s1 =
       ([length (heap ?s1) ..< length (heap ?s1) + length rs],
        ?s1\<lparr>heap := heap ?s1 @ map (\<lambda>q. heap ?s1 ! q) rs\<rparr>)" .
  moreover have "map (\<lambda>q. heap ?s1 ! q) rs = map (\<lambda>q. heap s ! q) rs"
    using Cons.prems by (auto simp: nth_append)
  ultimately show ?case
    using c by (simp del: upt_Suc add: upt_conv_Cons)
qed

lemma getUsers_eq:
  "allocated s \<Longrightarrow>
   getUsers s =
     (Resolved \<lparr>status = ''success'',
                users = Some [length (heap s) ..< length (heap s) + length (userList s)],
                message = None\<rparr>,
      s\<lparr>heap := heap s @ directory s\<rparr>)"
  by (simp add: getUsers_def allocated_def getUsers_loop_eq returnResult_def returnPromise_def
      directory_def)

subsection \<open>The seed\<close>

lemma ScalyrBackend_eq:
  "ScalyrBackend =
     \<lparr>heap =
        [\<lparr>email = ''czerwin@scalyr.com'', accessLevel = ''full'', state = ''active''\<rparr>,
         \<lparr>email = ''asma@scalyr.com'', accessLevel = ''full'', state = ''active''\<rparr>,
         \<lparr>email = ''jeff@scalyr.com'', accessLevel = ''full'', state = ''invited''\<rparr>,
         \<lparr>email = ''claudia@scalyr.com'', accessLevel = ''read-only'', state = ''active''\<rparr>,
         \<lparr>email = ''steve@scalyr.com'', accessLevel = ''limited'', state = ''invited''\<rparr>],
      userList = [0, 1, 2, 3, 4]\<rparr>"
  by (simp add: ScalyrBackend_def createUserRecord_def new_object_def Let_def
      AccessLevel_READ_ONLY_def AccessLevel_FULL_def AccessLevel_LIMITED_def
      UserState_ACTIVE_def UserState_INVITED_def)

lemma allocated_ScalyrBackend: "allocated ScalyrBackend"
  by (simp add: allocated_def ScalyrBackend_eq)

subsection \<open>What each method does\<close>

lemma inviteUsers_success:
  assumes "hasValue AccessLevel lvl" and "inviteUsers_check us s = None"
  shows "inviteUsers us lvl s =
           (Resolved \<lparr>status = ''success'', users = None, message = None\<rparr>,
            inviteUsers_push us lvl s)"
  using assms
  by (simp add: inviteUsers_def returnSuccess_def returnResult_def returnPromise_def)

text \<open>Without any assumption on the references, \<^verbatim>\<open>getUsers\<close> resolves, leaves the array
  alone and allocates one object per entry.\<close>

lemma getUsers_loop_shape:
  "\<exists>ext. getUsers_loop rs s =
      ([length (heap s) ..< length (heap s) + length rs], s\<lparr>heap := heap s @ ext\<rparr>)
      \<and> length ext = length rs"
proof (induction rs arbitrary: s)
  case Nil
  then show ?case by simp
next
  case (Cons r rs)
  obtain c s1 where c: "copyUserRecord r s = (c, s1)" by force
  then have c1: "c = length (heap s)" and s1: "s1 = s\<lparr>heap := heap s @ [heap s ! r]\<rparr>"
    by (auto simp: copyUserRecord_def new_object_def)
  from Cons.IH [of s1] obtain ext where
    e: "getUsers_loop rs s1 =
          ([length (heap s1) ..< length (heap s1) + length rs], s1\<lparr>heap := heap s1 @ ext\<rparr>)"
    and l: "length ext = length rs" by blast
  have "getUsers_loop (r # rs) s =
      ([length (heap s) ..< length (heap s) + length (r # rs)],
       s\<lparr>heap := heap s @ (heap s ! r # ext)\<rparr>)
      \<and> length (heap s ! r # ext) = length (r # rs)"
    using c e l unfolding c1 s1 by (simp del: upt_Suc add: upt_conv_Cons)
  then show ?case by blast
qed

lemma getUsers_shape:
  "\<exists>ext. getUsers s =
      (Resolved \<lparr>status = ''success'',
                 users = Some [length (heap s) ..< length (heap s) + length (userList s)],
                 message = None\<rparr>,
       s\<lparr>heap := heap s @ ext\<rparr>)
      \<and> length ext = length (userList s)"
proof -
  from getUsers_loop_shape [of "userList s" s] obtain ext where
    "getUsers_loop (userList s) s =
      ([length (heap s) ..< length (heap s) + length (userList s)], s\<lparr>heap := heap s @ ext\<rparr>)"
    "length ext = length (userList s)" by blast
  then have "getUsers s =
      (Resolved \<lparr>status = ''success'',
                 users = Some [length (heap s) ..< length (heap s) + length (userList s)],
                 message = None\<rparr>,
       s\<lparr>heap := heap s @ ext\<rparr>)
      \<and> length ext = length (userList s)"
    by (simp add: getUsers_def returnResult_def returnPromise_def)
  then show ?thesis by blast
qed

text \<open>\<^verbatim>\<open>revokeAccess\<close> on a hit: \<^verbatim>\<open>indexOf\<close> finds the position of the hit, and
  \<^verbatim>\<open>splice\<close> removes that one entry.\<close>

lemma revokeAccess_found:
  assumes "findUser e s = Some r"
  shows "\<exists>pre post. userList s = pre @ r # post \<and> email (heap s ! r) = e
           \<and> (\<forall>q \<in> set pre. email (heap s ! q) \<noteq> e)
           \<and> revokeAccess e s =
               (Resolved \<lparr>status = ''success'', users = None, message = None\<rparr>,
                s\<lparr>userList := pre @ post\<rparr>)"
proof -
  from assms have "findUser_loop (heap s) (userList s) e = Some r"
    by (simp add: findUser_def)
  from findUser_loop_Some [OF this] obtain pre post where
    u: "userList s = pre @ r # post" and e: "email (heap s ! r) = e"
    and n: "\<forall>q \<in> set pre. email (heap s ! q) \<noteq> e" by blast
  from e n have "r \<notin> set pre" by blast
  then have "indexOf (userList s) r = int (length pre)"
    unfolding u by (rule indexOf_first)
  then have "splice (indexOf (userList s) r) 1 (userList s) = pre @ post"
    unfolding u by (simp add: splice_one)
  with assms have "revokeAccess e s =
      (Resolved \<lparr>status = ''success'', users = None, message = None\<rparr>,
       s\<lparr>userList := pre @ post\<rparr>)"
    by (simp add: revokeAccess_def returnSuccess_def returnResult_def returnPromise_def)
  with u e n show ?thesis by blast
qed

text \<open>\<^verbatim>\<open>markAsActive\<close> on a hit writes the state of the found object and nothing else.\<close>

lemma markAsActive_sets_active:
  assumes "allocated s" and "present e s"
  shows "\<exists>r \<in> set (userList s). findUser e s = Some r \<and> email (heap s ! r) = e
           \<and> fst (markAsActive e s) = Resolved \<lparr>status = ''success'', users = None, message = None\<rparr>
           \<and> userList (snd (markAsActive e s)) = userList s
           \<and> heap (snd (markAsActive e s)) = (heap s)[r := (heap s ! r)\<lparr>state := ''active''\<rparr>]
           \<and> state (heap (snd (markAsActive e s)) ! r) = ''active''"
proof -
  from assms(2) obtain r where f: "findUser e s = Some r"
    by (auto simp: present_iff_findUser)
  then have "findUser_loop (heap s) (userList s) e = Some r" by (simp add: findUser_def)
  from findUser_loop_Some [OF this] have m: "r \<in> set (userList s)" and e: "email (heap s ! r) = e"
    by auto
  with assms(1) have "r < length (heap s)" by (simp add: allocated_def)
  with f m e show ?thesis
    by (simp add: markAsActive_def UserState_ACTIVE_def returnSuccess_def returnResult_def
        returnPromise_def)
qed

text \<open>\<^verbatim>\<open>markAsActive\<close> with the address of a record that is the first of the array with that
  address: success, and the one write \<^verbatim>\<open>targetUser.state = 'active'\<close> to that record.\<close>

lemma findUser_loop_first:
  "\<forall>q \<in> set pre. email (h ! q) \<noteq> e \<Longrightarrow> email (h ! r) = e \<Longrightarrow>
   findUser_loop h (pre @ r # post) e = Some r"
  by (induction pre) auto

lemma findUser_Some_email: "findUser e s = Some r \<Longrightarrow> email (heap s ! r) = e"
  using findUser_loop_Some [of "heap s" "userList s" e r] by (auto simp: findUser_def)

lemma markAsActive_first:
  assumes "userList s = pre @ r # post"
    and "\<forall>q \<in> set pre. email (heap s ! q) \<noteq> email (heap s ! r)"
  shows "markAsActive (email (heap s ! r)) s =
           (Resolved \<lparr>status = ''success'', users = None, message = None\<rparr>,
            s\<lparr>heap := (heap s)[r := (heap s ! r)\<lparr>state := ''active''\<rparr>]\<rparr>)"
proof -
  from findUser_loop_first [OF assms(2) refl, of post]
  have "findUser (email (heap s ! r)) s = Some r"
    by (simp add: findUser_def assms(1))
  then show ?thesis
    by (simp add: markAsActive_def UserState_ACTIVE_def returnSuccess_def returnResult_def
        returnPromise_def)
qed

text \<open>What one call does to an object that exists before it: nothing, unless the call is
  \<^verbatim>\<open>markAsActive\<close> with the object's own address, which sets its state to active.\<close>

lemma exec_object_step:
  assumes "r < length (heap s)"
  shows "r < length (heap (snd (exec c s)))
       \<and> (heap (snd (exec c s)) ! r = heap s ! r
          \<or> c = MarkAsActive (email (heap s ! r))
            \<and> heap (snd (exec c s)) ! r = (heap s ! r)\<lparr>state := ''active''\<rparr>)"
proof (cases c)
  case GetUsers
  from getUsers_shape [of s] obtain ext where
    "snd (getUsers s) = s\<lparr>heap := heap s @ ext\<rparr>" by force
  with assms GetUsers show ?thesis by (simp add: nth_append)
next
  case (InviteUsers us lvl)
  with assms show ?thesis
    by (simp add: inviteUsers_def inviteUsers_push_eq nth_append split: option.splits)
next
  case (ResendInvite u)
  with assms show ?thesis
    by (simp add: resendInvite_def split: option.splits)
next
  case (RevokeAccess u)
  with assms show ?thesis
    by (simp add: revokeAccess_def split: option.splits)
next
  case (MarkAsActive u)
  show ?thesis
  proof (cases "findUser u s")
    case None
    with MarkAsActive assms show ?thesis by (simp add: markAsActive_def)
  next
    case (Some t)
    then have h: "heap (snd (exec c s)) = (heap s)[t := (heap s ! t)\<lparr>state := ''active''\<rparr>]"
      using MarkAsActive by (simp add: markAsActive_def UserState_ACTIVE_def)
    show ?thesis
    proof (cases "t = r")
      case True
      with Some have "email (heap s ! r) = u" by (simp add: findUser_Some_email)
      with True assms h MarkAsActive show ?thesis by simp
    next
      case False
      with assms h show ?thesis by simp
    qed
  qed
qed

text \<open>The same through a sequence of calls.\<close>

lemma run_object:
  assumes "r < length (heap s)"
  shows "r < length (heap (run cs s))
       \<and> email (heap (run cs s) ! r) = email (heap s ! r)
       \<and> accessLevel (heap (run cs s) ! r) = accessLevel (heap s ! r)
       \<and> (state (heap (run cs s) ! r) = state (heap s ! r)
          \<or> state (heap (run cs s) ! r) = ''active''
            \<and> MarkAsActive (email (heap s ! r)) \<in> set cs)
       \<and> (state (heap s ! r) = ''active'' \<longrightarrow> state (heap (run cs s) ! r) = ''active'')"
  using assms
proof (induction cs arbitrary: s)
  case Nil
  then show ?case by simp
next
  case (Cons c cs)
  let ?s1 = "snd (exec c s)"
  from exec_object_step [OF Cons.prems, of c] have
    b: "r < length (heap ?s1)"
    and st: "heap ?s1 ! r = heap s ! r
       \<or> c = MarkAsActive (email (heap s ! r))
         \<and> heap ?s1 ! r = (heap s ! r)\<lparr>state := ''active''\<rparr>"
    by simp_all
  from st have e1: "email (heap ?s1 ! r) = email (heap s ! r)"
    and a1: "accessLevel (heap ?s1 ! r) = accessLevel (heap s ! r)"
    and s1: "state (heap ?s1 ! r) = state (heap s ! r)
       \<or> state (heap ?s1 ! r) = ''active'' \<and> c = MarkAsActive (email (heap s ! r))"
    by auto
  from Cons.IH [OF b] have
    ih: "r < length (heap (run cs ?s1))"
      "email (heap (run cs ?s1) ! r) = email (heap ?s1 ! r)"
      "accessLevel (heap (run cs ?s1) ! r) = accessLevel (heap ?s1 ! r)"
      "state (heap (run cs ?s1) ! r) = state (heap ?s1 ! r)
          \<or> state (heap (run cs ?s1) ! r) = ''active''
            \<and> MarkAsActive (email (heap ?s1 ! r)) \<in> set cs"
      "state (heap ?s1 ! r) = ''active'' \<longrightarrow> state (heap (run cs ?s1) ! r) = ''active''"
    by simp_all
  have 1: "r < length (heap (run (c # cs) s))" using ih(1) by simp
  have 2: "email (heap (run (c # cs) s) ! r) = email (heap s ! r)"
    using ih(2) e1 by simp
  have 3: "accessLevel (heap (run (c # cs) s) ! r) = accessLevel (heap s ! r)"
    using ih(3) a1 by simp
  have 4: "state (heap (run (c # cs) s) ! r) = state (heap s ! r)
          \<or> state (heap (run (c # cs) s) ! r) = ''active''
            \<and> MarkAsActive (email (heap s ! r)) \<in> set (c # cs)"
    using ih(4,5) s1 unfolding e1 by auto
  have 5: "state (heap s ! r) = ''active'' \<longrightarrow> state (heap (run (c # cs) s) ! r) = ''active''"
    using ih(4,5) s1 by auto
  from 1 2 3 4 5 show ?case by blast
qed

subsection \<open>Invariants\<close>

lemma set_splice: "set (splice a b xs) \<subseteq> set xs"
  by (auto simp: splice_def Let_def dest: in_set_takeD in_set_dropD)

text \<open>No call leaves a dangling reference in the array, so every backend reached from the
  seed satisfies \<^const>\<open>allocated\<close>.\<close>

lemma allocated_exec:
  assumes "allocated s"
  shows "allocated (snd (exec c s))"
proof (cases c)
  case GetUsers
  from getUsers_shape [of s] obtain ext where
    "snd (getUsers s) = s\<lparr>heap := heap s @ ext\<rparr>" by force
  with assms GetUsers show ?thesis by (auto simp: allocated_def)
next
  case (InviteUsers us lvl)
  with assms show ?thesis
    by (auto simp: allocated_def inviteUsers_def inviteUsers_push_eq split: option.splits)
next
  case (ResendInvite u)
  with assms show ?thesis
    by (simp add: resendInvite_def split: option.splits)
next
  case (RevokeAccess u)
  with assms set_splice show ?thesis
    by (fastforce simp: allocated_def revokeAccess_def split: option.splits)
next
  case (MarkAsActive u)
  with assms show ?thesis
    by (simp add: allocated_def markAsActive_def split: option.splits)
qed

lemma allocated_run: "allocated s \<Longrightarrow> allocated (run cs s)"
  by (induction cs arbitrary: s) (simp_all add: allocated_exec)

lemma email_after_update: "email (h[t := (h ! t)\<lparr>state := v\<rparr>] ! r) = email (h ! r)"
  by (cases "t = r"; cases "r < length h") (simp_all add: list_update_beyond)

text \<open>Every call keeps the addresses of the directory distinct, except an invitation
  whose batch names an address twice.\<close>

lemma exec_keeps_emails_distinct:
  assumes a: "allocated s" and d: "distinct (map email (directory s))"
    and b: "\<And>us lvl. c = InviteUsers us lvl \<Longrightarrow> distinct us"
  shows "distinct (map email (directory (snd (exec c s))))"
proof (cases c)
  case GetUsers
  from a have "snd (getUsers s) = s\<lparr>heap := heap s @ directory s\<rparr>"
    by (simp add: getUsers_eq)
  moreover from a have "\<forall>r \<in> set (userList s). r < length (heap s)"
    by (simp add: allocated_def)
  from nth_old [OF this, of "directory s"]
  have "directory (s\<lparr>heap := heap s @ directory s\<rparr>) = directory s"
    by (simp add: directory_def)
  ultimately show ?thesis using d GetUsers by simp
next
  case (InviteUsers us lvl)
  show ?thesis
  proof (cases "hasValue AccessLevel lvl \<and> inviteUsers_check us s = None")
    case False
    then have "snd (inviteUsers us lvl s) = s"
      by (auto simp: inviteUsers_def split: option.splits)
    with d InviteUsers show ?thesis by simp
  next
    case True
    let ?new = "map (\<lambda>e. \<lparr>email = e, accessLevel = lvl, state = ''invited''\<rparr>) us"
    from True have s1: "snd (inviteUsers us lvl s) = inviteUsers_push us lvl s"
      by (simp add: inviteUsers_success)
    from a have old: "\<forall>r \<in> set (userList s). r < length (heap s)"
      by (simp add: allocated_def)
    have "directory (inviteUsers_push us lvl s) = directory s @ ?new"
      using nth_fresh [of "heap s" ?new] nth_old [OF old, of ?new]
      by (simp add: directory_def inviteUsers_push_eq)
    then have m: "map email (directory (inviteUsers_push us lvl s)) = map email (directory s) @ us"
      by (simp add: comp_def)
    from True have "\<forall>e \<in> set us. \<not> present e s"
      by (simp add: inviteUsers_check_None_iff)
    then have "set (map email (directory s)) \<inter> set us = {}"
      by (auto simp: present_def)
    with d b [OF InviteUsers] show ?thesis
      unfolding InviteUsers exec.simps s1 m by simp
  qed
next
  case (ResendInvite u)
  with d show ?thesis by (simp add: resendInvite_def split: option.splits)
next
  case (RevokeAccess u)
  show ?thesis
  proof (cases "findUser u s")
    case None
    with d RevokeAccess show ?thesis by (simp add: revokeAccess_def)
  next
    case (Some r)
    from revokeAccess_found [OF this] obtain pre post where
      u: "userList s = pre @ r # post"
      and rv: "revokeAccess u s =
        (Resolved \<lparr>status = ''success'', users = None, message = None\<rparr>,
         s\<lparr>userList := pre @ post\<rparr>)" by blast
    from d show ?thesis
      unfolding RevokeAccess exec.simps rv by (simp add: directory_def u)
  qed
next
  case (MarkAsActive u)
  show ?thesis
  proof (cases "findUser u s")
    case None
    with d MarkAsActive show ?thesis by (simp add: markAsActive_def)
  next
    case (Some t)
    then have "map email (directory (snd (markAsActive u s))) = map email (directory s)"
      by (simp add: markAsActive_def directory_def email_after_update)
    with d MarkAsActive show ?thesis by simp
  qed
qed

lemma distinct_emails_ScalyrBackend: "distinct (map email (directory ScalyrBackend))"
  by (simp add: directory_def ScalyrBackend_eq)

section \<open>The claims\<close>

text \<open>
  C1. For every backend and every call \<^verbatim>\<open>inviteUsers(emails, accessLevel)\<close> whose access
  level is one of read-only, full, limited and one of whose addresses is already in the
  directory, the promise is rejected with status \<^verbatim>\<open>userExists\<close> and the backend after the
  call is the backend before it: the array and every object are untouched, so no record
  was inserted, removed or modified.
\<close>

theorem inviteUsers_existing_rejected:
  assumes "lvl \<in> {''read-only'', ''full'', ''limited''}" and "e \<in> set us" and "present e s"
  shows "\<exists>msg. inviteUsers us lvl s =
           (Rejected \<lparr>status = ''userExists'', users = None, message = Some msg\<rparr>, s)"
proof -
  from assms(2,3) have "inviteUsers_check us s \<noteq> None"
    by (auto simp: inviteUsers_check_None_iff)
  then obtain u where "inviteUsers_check us s = Some u" by blast
  with assms(1) show ?thesis
    by (simp add: inviteUsers_def hasValue_AccessLevel returnError_def returnPromise_def)
qed

theorem inviteUsers_existing_rejected_witness:
  "present ''jeff@scalyr.com'' ScalyrBackend
   \<and> (\<exists>msg. inviteUsers [''new@x.com'', ''jeff@scalyr.com''] ''full'' ScalyrBackend =
         (Rejected \<lparr>status = ''userExists'', users = None, message = Some msg\<rparr>, ScalyrBackend))"
proof -
  have p: "present ''jeff@scalyr.com'' ScalyrBackend"
    by (simp add: present_def directory_def ScalyrBackend_eq)
  show ?thesis
    using p inviteUsers_existing_rejected
      [of "''full''" "''jeff@scalyr.com''" "[''new@x.com'', ''jeff@scalyr.com'']" ScalyrBackend]
    by simp
qed

text \<open>
  C2. For every backend without dangling references, every access level among read-only,
  full, limited and every list of addresses none of which is in the directory,
  \<^verbatim>\<open>inviteUsers\<close> resolves with status \<^verbatim>\<open>success\<close>, and a \<^verbatim>\<open>getUsers\<close> right after it
  resolves with the records the directory held before the call, unchanged and in their
  order, followed by one record per address of the batch, in the batch's order, each with
  state \<^verbatim>\<open>invited\<close> and the given access level.
\<close>

theorem inviteUsers_then_getUsers:
  assumes "allocated s" and "lvl \<in> {''read-only'', ''full'', ''limited''}"
    and "\<forall>e \<in> set us. \<not> present e s"
  shows "\<exists>s1 rs s2.
           inviteUsers us lvl s =
             (Resolved \<lparr>status = ''success'', users = None, message = None\<rparr>, s1)
         \<and> getUsers s1 =
             (Resolved \<lparr>status = ''success'', users = Some rs, message = None\<rparr>, s2)
         \<and> records_of s2 rs =
             directory s @ map (\<lambda>e. \<lparr>email = e, accessLevel = lvl, state = ''invited''\<rparr>) us"
proof -
  let ?new = "map (\<lambda>e. \<lparr>email = e, accessLevel = lvl, state = ''invited''\<rparr>) us"
  let ?s1 = "inviteUsers_push us lvl s"
  have chk: "inviteUsers_check us s = None"
    using assms(3) by (simp add: inviteUsers_check_None_iff)
  have inv: "inviteUsers us lvl s =
      (Resolved \<lparr>status = ''success'', users = None, message = None\<rparr>, ?s1)"
    using assms(2)
    by (simp add: inviteUsers_def hasValue_AccessLevel chk
        returnSuccess_def returnResult_def returnPromise_def)
  have h1: "heap ?s1 = heap s @ ?new"
    and u1: "userList ?s1 = userList s @ [length (heap s) ..< length (heap s) + length us]"
    by (simp_all add: inviteUsers_push_eq)
  have old: "\<forall>r \<in> set (userList s). r < length (heap s)"
    using assms(1) by (simp add: allocated_def)
  have a1: "allocated ?s1"
    using old by (auto simp: allocated_def h1 u1)
  have d1: "directory ?s1 = directory s @ ?new"
    using nth_fresh [of "heap s" ?new] nth_old [OF old, of ?new]
    by (simp add: directory_def h1 u1)
  let ?rs = "[length (heap ?s1) ..< length (heap ?s1) + length (userList ?s1)]"
  let ?s2 = "?s1\<lparr>heap := heap ?s1 @ directory ?s1\<rparr>"
  have g: "getUsers ?s1 =
      (Resolved \<lparr>status = ''success'', users = Some ?rs, message = None\<rparr>, ?s2)"
    by (rule getUsers_eq [OF a1])
  have "length (directory ?s1) = length (userList ?s1)"
    by (simp add: directory_def)
  then have "records_of ?s2 ?rs = directory ?s1"
    using nth_fresh [of "heap ?s1" "directory ?s1"] by (simp add: records_of_def)
  with inv g d1 show ?thesis by metis
qed

theorem inviteUsers_then_getUsers_witness:
  "allocated ScalyrBackend
   \<and> \<not> present ''new@x.com'' ScalyrBackend
   \<and> (\<exists>s1 rs s2.
         inviteUsers [''new@x.com''] ''read-only'' ScalyrBackend =
           (Resolved \<lparr>status = ''success'', users = None, message = None\<rparr>, s1)
       \<and> getUsers s1 =
           (Resolved \<lparr>status = ''success'', users = Some rs, message = None\<rparr>, s2)
       \<and> records_of s2 rs =
           directory ScalyrBackend
             @ [\<lparr>email = ''new@x.com'', accessLevel = ''read-only'', state = ''invited''\<rparr>])"
proof -
  have p: "\<not> present ''new@x.com'' ScalyrBackend"
    by (simp add: present_def directory_def ScalyrBackend_eq)
  show ?thesis
    using p allocated_ScalyrBackend
      inviteUsers_then_getUsers [of ScalyrBackend "''read-only''" "[''new@x.com'']"]
    by simp
qed

text \<open>
  C3. The claim is that no two records of the directory ever share an address, from the
  seed on and after any sequence of calls. The code checks each address of a batch against
  the directory only, never against the rest of the batch: on the seed, whose addresses are
  distinct, \<^verbatim>\<open>inviteUsers(['a@x.com', 'a@x.com'], 'full')\<close> resolves with \<^verbatim>\<open>success\<close> and
  leaves two records with the address \<^verbatim>\<open>a@x.com\<close> in the directory.
  (Lemma \<open>exec_keeps_emails_distinct\<close> shows that this is the only way to lose
  uniqueness.)
\<close>

theorem inviteUsers_repeated_address:
  "distinct (map email (directory ScalyrBackend))
   \<and> fst (inviteUsers [''a@x.com'', ''a@x.com''] ''full'' ScalyrBackend) =
       Resolved \<lparr>status = ''success'', users = None, message = None\<rparr>
   \<and> map email (directory (snd (inviteUsers [''a@x.com'', ''a@x.com''] ''full'' ScalyrBackend))) =
       [''czerwin@scalyr.com'', ''asma@scalyr.com'', ''jeff@scalyr.com'', ''claudia@scalyr.com'',
        ''steve@scalyr.com'', ''a@x.com'', ''a@x.com'']
   \<and> \<not> distinct (map email
          (directory (snd (inviteUsers [''a@x.com'', ''a@x.com''] ''full'' ScalyrBackend))))"
proof -
  have d: "map email (directory ScalyrBackend) =
      [''czerwin@scalyr.com'', ''asma@scalyr.com'', ''jeff@scalyr.com'', ''claudia@scalyr.com'',
       ''steve@scalyr.com'']"
    by (simp add: directory_def ScalyrBackend_eq)
  have h: "hasValue AccessLevel ''full''"
    by (simp add: hasValue_AccessLevel)
  have c: "inviteUsers_check [''a@x.com'', ''a@x.com''] ScalyrBackend = None"
    unfolding inviteUsers_check_None_iff
    by (simp add: present_def directory_def ScalyrBackend_eq)
  have i: "inviteUsers [''a@x.com'', ''a@x.com''] ''full'' ScalyrBackend =
      (Resolved \<lparr>status = ''success'', users = None, message = None\<rparr>,
       inviteUsers_push [''a@x.com'', ''a@x.com''] ''full'' ScalyrBackend)"
    by (rule inviteUsers_success [OF h c])
  have p: "map email (directory (inviteUsers_push [''a@x.com'', ''a@x.com''] ''full'' ScalyrBackend)) =
      [''czerwin@scalyr.com'', ''asma@scalyr.com'', ''jeff@scalyr.com'', ''claudia@scalyr.com'',
       ''steve@scalyr.com'', ''a@x.com'', ''a@x.com'']"
    by (simp add: directory_def ScalyrBackend_eq createUserRecord_def new_object_def
        UserState_INVITED_def)
  show ?thesis
    unfolding i fst_conv snd_conv p d by simp
qed

text \<open>
  C4. For every backend and every address that is not in the directory, each of
  \<^verbatim>\<open>resendInvite\<close>, \<^verbatim>\<open>revokeAccess\<close> and \<^verbatim>\<open>markAsActive\<close> is rejected with status
  \<^verbatim>\<open>userNotExists\<close>, and the backend after the call is the backend before it.
\<close>

theorem missing_user_rejected:
  assumes "\<not> present e s"
  shows "(\<exists>msg. resendInvite e s =
            (Rejected \<lparr>status = ''userNotExists'', users = None, message = Some msg\<rparr>, s))
       \<and> (\<exists>msg. revokeAccess e s =
            (Rejected \<lparr>status = ''userNotExists'', users = None, message = Some msg\<rparr>, s))
       \<and> (\<exists>msg. markAsActive e s =
            (Rejected \<lparr>status = ''userNotExists'', users = None, message = Some msg\<rparr>, s))"
proof -
  from assms have "findUser e s = None" by (simp add: findUser_None_iff)
  then show ?thesis
    by (simp add: resendInvite_def revokeAccess_def markAsActive_def returnError_def
        returnPromise_def)
qed

theorem missing_user_rejected_witness:
  "\<not> present ''nobody@x.com'' ScalyrBackend
   \<and> (\<exists>msg. resendInvite ''nobody@x.com'' ScalyrBackend =
         (Rejected \<lparr>status = ''userNotExists'', users = None, message = Some msg\<rparr>, ScalyrBackend))
   \<and> (\<exists>msg. revokeAccess ''nobody@x.com'' ScalyrBackend =
         (Rejected \<lparr>status = ''userNotExists'', users = None, message = Some msg\<rparr>, ScalyrBackend))
   \<and> (\<exists>msg. markAsActive ''nobody@x.com'' ScalyrBackend =
         (Rejected \<lparr>status = ''userNotExists'', users = None, message = Some msg\<rparr>, ScalyrBackend))"
proof -
  have p: "\<not> present ''nobody@x.com'' ScalyrBackend"
    by (simp add: present_def directory_def ScalyrBackend_eq)
  show ?thesis
    using p missing_user_rejected [of "''nobody@x.com''" ScalyrBackend] by simp
qed

text \<open>
  C5. For every backend and every address in the directory, whatever the state of its
  record, \<^verbatim>\<open>revokeAccess\<close> resolves with \<^verbatim>\<open>success\<close> and removes one entry of the array
  and nothing else: the first record with that address. No object is written, the records
  before and after the removed one stay in place and in order, and \<^verbatim>\<open>getUsers\<close> delivers
  exactly one record fewer after the call than before it. Where the addresses of the
  directory are distinct, the address is no longer in the directory afterwards.
\<close>

theorem revokeAccess_removes_one:
  assumes "present e s"
  shows "\<exists>pre r post.
           userList s = pre @ r # post
         \<and> email (heap s ! r) = e
         \<and> (\<forall>q \<in> set pre. email (heap s ! q) \<noteq> e)
         \<and> revokeAccess e s =
             (Resolved \<lparr>status = ''success'', users = None, message = None\<rparr>,
              s\<lparr>userList := pre @ post\<rparr>)
         \<and> directory s = records_of s pre @ heap s ! r # records_of s post
         \<and> directory (snd (revokeAccess e s)) = records_of s pre @ records_of s post
         \<and> (\<exists>rs0 s0 rs1 s1.
               getUsers s =
                 (Resolved \<lparr>status = ''success'', users = Some rs0, message = None\<rparr>, s0)
             \<and> getUsers (snd (revokeAccess e s)) =
                 (Resolved \<lparr>status = ''success'', users = Some rs1, message = None\<rparr>, s1)
             \<and> length rs1 + 1 = length rs0)
         \<and> (distinct (map email (directory s)) \<longrightarrow> \<not> present e (snd (revokeAccess e s)))"
proof -
  from assms obtain r where "findUser e s = Some r"
    by (auto simp: present_iff_findUser)
  from revokeAccess_found [OF this] obtain pre post where
    u: "userList s = pre @ r # post" and e: "email (heap s ! r) = e"
    and n: "\<forall>q \<in> set pre. email (heap s ! q) \<noteq> e"
    and rv: "revokeAccess e s =
      (Resolved \<lparr>status = ''success'', users = None, message = None\<rparr>,
       s\<lparr>userList := pre @ post\<rparr>)" by blast
  let ?s' = "s\<lparr>userList := pre @ post\<rparr>"
  have d0: "directory s = records_of s pre @ heap s ! r # records_of s post"
    by (simp add: directory_def records_of_def u)
  have d1: "directory (snd (revokeAccess e s)) = records_of s pre @ records_of s post"
    by (simp add: rv directory_def records_of_def)
  from getUsers_shape [of s] obtain ext0 where
    g0: "getUsers s =
      (Resolved \<lparr>status = ''success'',
                 users = Some [length (heap s) ..< length (heap s) + length (userList s)],
                 message = None\<rparr>, s\<lparr>heap := heap s @ ext0\<rparr>)" by blast
  from getUsers_shape [of ?s'] obtain ext1 where
    g1: "getUsers ?s' =
      (Resolved \<lparr>status = ''success'',
                 users = Some [length (heap ?s') ..< length (heap ?s') + length (userList ?s')],
                 message = None\<rparr>, ?s'\<lparr>heap := heap ?s' @ ext1\<rparr>)" by blast
  have len: "length [length (heap ?s') ..< length (heap ?s') + length (userList ?s')] + 1
      = length [length (heap s) ..< length (heap s) + length (userList s)]"
    by (simp add: u)
  have lst: "\<exists>rs0 s0 rs1 s1.
               getUsers s =
                 (Resolved \<lparr>status = ''success'', users = Some rs0, message = None\<rparr>, s0)
             \<and> getUsers (snd (revokeAccess e s)) =
                 (Resolved \<lparr>status = ''success'', users = Some rs1, message = None\<rparr>, s1)
             \<and> length rs1 + 1 = length rs0"
    using g0 g1 len unfolding rv snd_conv by blast
  have gone: "distinct (map email (directory s)) \<longrightarrow> \<not> present e (snd (revokeAccess e s))"
  proof
    assume "distinct (map email (directory s))"
    then have "e \<notin> set (map email (records_of s pre)) \<and> e \<notin> set (map email (records_of s post))"
      unfolding d0 using e by auto
    then show "\<not> present e (snd (revokeAccess e s))"
      unfolding present_def d1 by auto
  qed
  from u e n rv d0 d1 lst gone show ?thesis by blast
qed

theorem revokeAccess_removes_one_witness:
  "present ''jeff@scalyr.com'' ScalyrBackend
   \<and> distinct (map email (directory ScalyrBackend))
   \<and> (\<exists>pre r post.
         userList ScalyrBackend = pre @ r # post
       \<and> email (heap ScalyrBackend ! r) = ''jeff@scalyr.com''
       \<and> revokeAccess ''jeff@scalyr.com'' ScalyrBackend =
           (Resolved \<lparr>status = ''success'', users = None, message = None\<rparr>,
            ScalyrBackend\<lparr>userList := pre @ post\<rparr>)
       \<and> directory (snd (revokeAccess ''jeff@scalyr.com'' ScalyrBackend)) =
           records_of ScalyrBackend pre @ records_of ScalyrBackend post)
   \<and> \<not> present ''jeff@scalyr.com'' (snd (revokeAccess ''jeff@scalyr.com'' ScalyrBackend))"
proof -
  have p: "present ''jeff@scalyr.com'' ScalyrBackend"
    by (simp add: present_def directory_def ScalyrBackend_eq)
  from revokeAccess_removes_one [OF p] distinct_emails_ScalyrBackend p
  show ?thesis by blast
qed

text \<open>
  C6. For every backend, every list of addresses and every access level that is none of
  read-only, full, limited, \<^verbatim>\<open>inviteUsers\<close> is rejected with status \<^verbatim>\<open>invalidAccess\<close>, and
  the backend after the call is the backend before it.
\<close>

theorem inviteUsers_invalid_level_rejected:
  assumes "lvl \<notin> {''read-only'', ''full'', ''limited''}"
  shows "\<exists>msg. inviteUsers us lvl s =
           (Rejected \<lparr>status = ''invalidAccess'', users = None, message = Some msg\<rparr>, s)"
  using assms
  by (simp add: inviteUsers_def hasValue_AccessLevel returnError_def returnPromise_def)

theorem inviteUsers_invalid_level_rejected_witness:
  "''admin'' \<notin> {''read-only'', ''full'', ''limited''}
   \<and> (\<exists>msg. inviteUsers [''new@x.com''] ''admin'' ScalyrBackend =
         (Rejected \<lparr>status = ''invalidAccess'', users = None, message = Some msg\<rparr>, ScalyrBackend))"
  using inviteUsers_invalid_level_rejected [of "''admin''" "[''new@x.com'']" ScalyrBackend]
  by simp

text \<open>
  C7. \<^verbatim>\<open>getUsers\<close> never fails: for every backend it resolves with status \<^verbatim>\<open>success\<close> and
  one reference per entry of the array, and it leaves the array as it is. Where the array
  holds no dangling reference, the delivered records are the records of the directory in
  array order, they are copies (none of the delivered references is in the array), the
  directory is unchanged, and a second \<^verbatim>\<open>getUsers\<close> right after the first delivers
  records equal by value to those of the first.
\<close>

theorem getUsers_snapshot:
  "\<exists>rs s'.
      getUsers s = (Resolved \<lparr>status = ''success'', users = Some rs, message = None\<rparr>, s')
    \<and> userList s' = userList s
    \<and> length rs = length (userList s)
    \<and> (allocated s \<longrightarrow>
          records_of s' rs = directory s
        \<and> directory s' = directory s
        \<and> set rs \<inter> set (userList s') = {}
        \<and> (\<exists>rs2 s2.
              getUsers s' =
                (Resolved \<lparr>status = ''success'', users = Some rs2, message = None\<rparr>, s2)
            \<and> records_of s2 rs2 = records_of s' rs
            \<and> records_of s2 rs = records_of s' rs))"
proof -
  let ?rs = "[length (heap s) ..< length (heap s) + length (userList s)]"
  from getUsers_shape [of s] obtain ext where
    g: "getUsers s =
      (Resolved \<lparr>status = ''success'', users = Some ?rs, message = None\<rparr>,
       s\<lparr>heap := heap s @ ext\<rparr>)" by blast
  let ?s' = "s\<lparr>heap := heap s @ ext\<rparr>"
  have u: "userList ?s' = userList s" and l: "length ?rs = length (userList s)"
    by simp_all
  have v: "allocated s \<longrightarrow>
          records_of ?s' ?rs = directory s
        \<and> directory ?s' = directory s
        \<and> set ?rs \<inter> set (userList ?s') = {}
        \<and> (\<exists>rs2 s2.
              getUsers ?s' =
                (Resolved \<lparr>status = ''success'', users = Some rs2, message = None\<rparr>, s2)
            \<and> records_of s2 rs2 = records_of ?s' ?rs
            \<and> records_of s2 ?rs = records_of ?s' ?rs)"
  proof
    assume a: "allocated s"
    then have old: "\<forall>r \<in> set (userList s). r < length (heap s)"
      by (simp add: allocated_def)
    from g getUsers_eq [OF a]
    have "s\<lparr>heap := heap s @ ext\<rparr> = s\<lparr>heap := heap s @ directory s\<rparr>"
      by simp
    then have "heap (s\<lparr>heap := heap s @ ext\<rparr>) = heap (s\<lparr>heap := heap s @ directory s\<rparr>)"
      by (rule arg_cong)
    then have ext: "ext = directory s" by simp
    have ld: "length (directory s) = length (userList s)"
      by (simp add: directory_def)
    have r1: "records_of ?s' ?rs = directory s"
      using nth_fresh [of "heap s" "directory s"] by (simp add: records_of_def ext ld)
    have d1: "directory ?s' = directory s"
      using nth_old [OF old, of ext] by (simp add: directory_def)
    have fresh: "set ?rs \<inter> set (userList ?s') = {}"
      using old by auto
    have a1: "allocated ?s'"
      using old by (auto simp: allocated_def)
    let ?rs2 = "[length (heap ?s') ..< length (heap ?s') + length (userList ?s')]"
    let ?s2 = "?s'\<lparr>heap := heap ?s' @ directory ?s'\<rparr>"
    have g2: "getUsers ?s' =
        (Resolved \<lparr>status = ''success'', users = Some ?rs2, message = None\<rparr>, ?s2)"
      by (rule getUsers_eq [OF a1])
    have "length (directory ?s') = length (userList ?s')"
      by (simp add: directory_def)
    then have "records_of ?s2 ?rs2 = directory ?s'"
      using nth_fresh [of "heap ?s'" "directory ?s'"] by (simp add: records_of_def)
    then have r2: "records_of ?s2 ?rs2 = records_of ?s' ?rs"
      by (simp only: d1 r1)
    have "\<forall>r \<in> set ?rs. r < length (heap ?s')"
      by (auto simp: ext ld)
    from nth_old [OF this, of "directory ?s'"]
    have r3: "records_of ?s2 ?rs = records_of ?s' ?rs"
      by (simp add: records_of_def)
    from r1 d1 fresh g2 r2 r3
    show "records_of ?s' ?rs = directory s
        \<and> directory ?s' = directory s
        \<and> set ?rs \<inter> set (userList ?s') = {}
        \<and> (\<exists>rs2 s2.
              getUsers ?s' =
                (Resolved \<lparr>status = ''success'', users = Some rs2, message = None\<rparr>, s2)
            \<and> records_of s2 rs2 = records_of ?s' ?rs
            \<and> records_of s2 ?rs = records_of ?s' ?rs)"
      by blast
  qed
  from g u l v show ?thesis by blast
qed

theorem getUsers_snapshot_witness:
  "allocated ScalyrBackend
   \<and> (\<exists>rs s'.
         getUsers ScalyrBackend =
           (Resolved \<lparr>status = ''success'', users = Some rs, message = None\<rparr>, s')
       \<and> length rs = 5
       \<and> records_of s' rs = directory ScalyrBackend
       \<and> directory s' = directory ScalyrBackend
       \<and> set rs \<inter> set (userList s') = {}
       \<and> (\<exists>rs2 s2.
             getUsers s' =
               (Resolved \<lparr>status = ''success'', users = Some rs2, message = None\<rparr>, s2)
           \<and> records_of s2 rs2 = records_of s' rs))"
proof -
  have l: "length (userList ScalyrBackend) = 5"
    by (simp add: ScalyrBackend_eq)
  from getUsers_snapshot [of ScalyrBackend] allocated_ScalyrBackend l
  show ?thesis by metis
qed

text \<open>
  C8. For every backend and every address in the directory, \<^verbatim>\<open>resendInvite\<close> resolves
  with status \<^verbatim>\<open>success\<close>, and the backend after the call is the backend before it: no
  field of any record is written.
\<close>

theorem resendInvite_acknowledges:
  assumes "present e s"
  shows "resendInvite e s =
           (Resolved \<lparr>status = ''success'', users = None, message = None\<rparr>, s)"
proof -
  from assms obtain r where "findUser e s = Some r"
    by (auto simp: present_iff_findUser)
  then show ?thesis
    by (simp add: resendInvite_def returnSuccess_def returnResult_def returnPromise_def)
qed

theorem resendInvite_acknowledges_witness:
  "present ''jeff@scalyr.com'' ScalyrBackend
   \<and> resendInvite ''jeff@scalyr.com'' ScalyrBackend =
       (Resolved \<lparr>status = ''success'', users = None, message = None\<rparr>, ScalyrBackend)"
proof -
  have p: "present ''jeff@scalyr.com'' ScalyrBackend"
    by (simp add: present_def directory_def ScalyrBackend_eq)
  show ?thesis
    using p resendInvite_acknowledges [of "''jeff@scalyr.com''" ScalyrBackend] by simp
qed

text \<open>
  C9. The state of a record only ever moves to \<^verbatim>\<open>active\<close>, and \<^verbatim>\<open>markAsActive\<close> is the
  call that moves it. For every backend, every record object \<open>r\<close> that exists in it, every
  sequence of calls \<open>cs\<close> and every single call \<open>c\<close> (\<^verbatim>\<open>getUsers\<close>, \<^verbatim>\<open>inviteUsers\<close>,
  \<^verbatim>\<open>resendInvite\<close>, \<^verbatim>\<open>revokeAccess\<close>, \<^verbatim>\<open>markAsActive\<close>, with any arguments):
  \<^item> after the sequence the object still exists, with the same address and access level;
  \<^item> its state is either what it was, or it is \<^verbatim>\<open>active\<close> and the sequence contains a
    \<^verbatim>\<open>markAsActive\<close> with the record's own address;
  \<^item> a record that is \<^verbatim>\<open>active\<close> before is \<^verbatim>\<open>active\<close> after, so none goes from
    \<^verbatim>\<open>active\<close> to \<^verbatim>\<open>invited\<close>;
  \<^item> a single call that changes the record's state is \<^verbatim>\<open>markAsActive\<close> with the record's
    address, and the new state is \<^verbatim>\<open>active\<close>;
  \<^item> \<^verbatim>\<open>markAsActive\<close> does set the state: where the record is in the array and no earlier
    entry has its address, \<^verbatim>\<open>markAsActive\<close> with its address resolves with \<^verbatim>\<open>success\<close>,
    writes \<^verbatim>\<open>active\<close> into the state of this record and nothing else, and the record is
    still \<^verbatim>\<open>active\<close> after any further sequence of calls.
  Every record of the directory of a backend reached from the seed is such an object
  (lemma \<open>allocated_run\<close>). A record is an object: an address that is revoked and
  invited again gets a new record.
\<close>

theorem state_only_becomes_active:
  assumes "r < length (heap s)"
  shows "r < length (heap (run cs s))
       \<and> email (heap (run cs s) ! r) = email (heap s ! r)
       \<and> accessLevel (heap (run cs s) ! r) = accessLevel (heap s ! r)
       \<and> (state (heap (run cs s) ! r) = state (heap s ! r)
          \<or> state (heap (run cs s) ! r) = ''active''
            \<and> MarkAsActive (email (heap s ! r)) \<in> set cs)
       \<and> (state (heap s ! r) = ''active'' \<longrightarrow> state (heap (run cs s) ! r) = ''active'')
       \<and> (state (heap (snd (exec c s)) ! r) \<noteq> state (heap s ! r) \<longrightarrow>
            c = MarkAsActive (email (heap s ! r))
          \<and> state (heap (snd (exec c s)) ! r) = ''active'')
       \<and> (\<forall>pre post.
            userList s = pre @ r # post
          \<and> (\<forall>q \<in> set pre. email (heap s ! q) \<noteq> email (heap s ! r)) \<longrightarrow>
            markAsActive (email (heap s ! r)) s =
              (Resolved \<lparr>status = ''success'', users = None, message = None\<rparr>,
               s\<lparr>heap := (heap s)[r := (heap s ! r)\<lparr>state := ''active''\<rparr>]\<rparr>)
          \<and> state (heap (snd (markAsActive (email (heap s ! r)) s)) ! r) = ''active''
          \<and> state (heap (run (MarkAsActive (email (heap s ! r)) # cs) s) ! r) = ''active'')"
proof -
  let ?e = "email (heap s ! r)"
  note safe = run_object [OF assms, of cs]
  have step: "state (heap (snd (exec c s)) ! r) \<noteq> state (heap s ! r) \<longrightarrow>
            c = MarkAsActive ?e \<and> state (heap (snd (exec c s)) ! r) = ''active''"
    using exec_object_step [OF assms, of c] by auto
  have live: "\<forall>pre post.
            userList s = pre @ r # post
          \<and> (\<forall>q \<in> set pre. email (heap s ! q) \<noteq> ?e) \<longrightarrow>
            markAsActive ?e s =
              (Resolved \<lparr>status = ''success'', users = None, message = None\<rparr>,
               s\<lparr>heap := (heap s)[r := (heap s ! r)\<lparr>state := ''active''\<rparr>]\<rparr>)
          \<and> state (heap (snd (markAsActive ?e s)) ! r) = ''active''
          \<and> state (heap (run (MarkAsActive ?e # cs) s) ! r) = ''active''"
  proof (intro allI impI)
    fix pre post
    assume f: "userList s = pre @ r # post
          \<and> (\<forall>q \<in> set pre. email (heap s ! q) \<noteq> ?e)"
    let ?s1 = "s\<lparr>heap := (heap s)[r := (heap s ! r)\<lparr>state := ''active''\<rparr>]\<rparr>"
    from f have m: "markAsActive ?e s =
        (Resolved \<lparr>status = ''success'', users = None, message = None\<rparr>, ?s1)"
      by (simp add: markAsActive_first)
    have a: "state (heap ?s1 ! r) = ''active''" and b: "r < length (heap ?s1)"
      using assms by simp_all
    from run_object [OF b, of cs] a have "state (heap (run cs ?s1) ! r) = ''active''"
      by blast
    then have "state (heap (run (MarkAsActive ?e # cs) s) ! r) = ''active''"
      by (simp add: m)
    with m a show "markAsActive ?e s =
              (Resolved \<lparr>status = ''success'', users = None, message = None\<rparr>, ?s1)
          \<and> state (heap (snd (markAsActive ?e s)) ! r) = ''active''
          \<and> state (heap (run (MarkAsActive ?e # cs) s) ! r) = ''active''"
      by simp
  qed
  from safe step live show ?thesis by blast
qed

theorem state_only_becomes_active_witness:
  "(2::nat) < length (heap ScalyrBackend)
   \<and> userList ScalyrBackend = [0, 1] @ 2 # [3, 4]
   \<and> email (heap ScalyrBackend ! 2) = ''jeff@scalyr.com''
   \<and> state (heap ScalyrBackend ! 2) = ''invited''
   \<and> fst (markAsActive ''jeff@scalyr.com'' ScalyrBackend) =
       Resolved \<lparr>status = ''success'', users = None, message = None\<rparr>
   \<and> state (heap (snd (markAsActive ''jeff@scalyr.com'' ScalyrBackend)) ! 2) = ''active''
   \<and> state (heap (run [MarkAsActive ''jeff@scalyr.com'',
                       ResendInvite ''jeff@scalyr.com'',
                       InviteUsers [''new@x.com''] ''limited'',
                       GetUsers] ScalyrBackend) ! 2) = ''active''
   \<and> state (heap (snd (exec (MarkAsActive ''jeff@scalyr.com'') ScalyrBackend)) ! 2)
       \<noteq> state (heap ScalyrBackend ! 2)
   \<and> state (heap (run [ResendInvite ''jeff@scalyr.com'',
                       InviteUsers [''new@x.com''] ''limited'',
                       GetUsers] ScalyrBackend) ! 2) = ''invited''
   \<and> (0::nat) < length (heap ScalyrBackend)
   \<and> state (heap ScalyrBackend ! 0) = ''active''
   \<and> state (heap (run [MarkAsActive ''jeff@scalyr.com'',
                       RevokeAccess ''czerwin@scalyr.com'',
                       InviteUsers [''czerwin@scalyr.com''] ''full'',
                       GetUsers] ScalyrBackend) ! 0) = ''active''"
proof -
  have h: "(2::nat) < length (heap ScalyrBackend)"
    and u: "userList ScalyrBackend = [0, 1] @ 2 # [3, 4]"
    and e: "email (heap ScalyrBackend ! 2) = ''jeff@scalyr.com''"
    and s: "state (heap ScalyrBackend ! 2) = ''invited''"
    and n: "\<forall>q \<in> set [0, 1]. email (heap ScalyrBackend ! q) \<noteq> email (heap ScalyrBackend ! 2)"
    and h0: "(0::nat) < length (heap ScalyrBackend)"
    and s0: "state (heap ScalyrBackend ! 0) = ''active''"
    by (simp_all add: ScalyrBackend_eq)
  note t1 = state_only_becomes_active [OF h,
      of "[ResendInvite ''jeff@scalyr.com'', InviteUsers [''new@x.com''] ''limited'', GetUsers]"
         "MarkAsActive ''jeff@scalyr.com''"]
  from t1 u n have
    m: "markAsActive (email (heap ScalyrBackend ! 2)) ScalyrBackend =
          (Resolved \<lparr>status = ''success'', users = None, message = None\<rparr>,
           ScalyrBackend\<lparr>heap := (heap ScalyrBackend)
             [2 := (heap ScalyrBackend ! 2)\<lparr>state := ''active''\<rparr>]\<rparr>)"
    and a: "state (heap (snd (markAsActive (email (heap ScalyrBackend ! 2)) ScalyrBackend)) ! 2)
          = ''active''"
    and r: "state (heap (run (MarkAsActive (email (heap ScalyrBackend ! 2))
              # [ResendInvite ''jeff@scalyr.com'', InviteUsers [''new@x.com''] ''limited'',
                 GetUsers]) ScalyrBackend) ! 2) = ''active''"
    by blast+
  from t1 have "state (heap (run [ResendInvite ''jeff@scalyr.com'',
                       InviteUsers [''new@x.com''] ''limited'',
                       GetUsers] ScalyrBackend) ! 2) = state (heap ScalyrBackend ! 2)
     \<or> MarkAsActive (email (heap ScalyrBackend ! 2))
         \<in> set [ResendInvite ''jeff@scalyr.com'', InviteUsers [''new@x.com''] ''limited'',
                 GetUsers]"
    by blast
  then have k: "state (heap (run [ResendInvite ''jeff@scalyr.com'',
                       InviteUsers [''new@x.com''] ''limited'',
                       GetUsers] ScalyrBackend) ! 2) = ''invited''"
    by (simp add: s)
  from state_only_becomes_active [OF h0,
      of "[MarkAsActive ''jeff@scalyr.com'', RevokeAccess ''czerwin@scalyr.com'',
           InviteUsers [''czerwin@scalyr.com''] ''full'', GetUsers]"] s0
  have z: "state (heap (run [MarkAsActive ''jeff@scalyr.com'',
                       RevokeAccess ''czerwin@scalyr.com'',
                       InviteUsers [''czerwin@scalyr.com''] ''full'',
                       GetUsers] ScalyrBackend) ! 0) = ''active''"
    by blast
  from m a r show ?thesis
    unfolding e using h u s k h0 s0 z by (simp add: e)
qed

text \<open>
  C10. The access level is checked first: for every backend and every call of
  \<^verbatim>\<open>inviteUsers\<close> whose access level is none of read-only, full, limited and one of whose
  addresses is already in the directory, the promise is rejected with status
  \<^verbatim>\<open>invalidAccess\<close> (and the message about the access level, not the one about the
  address), and the backend after the call is the backend before it.
\<close>

theorem inviteUsers_level_checked_first:
  assumes "lvl \<notin> {''read-only'', ''full'', ''limited''}" and "e \<in> set us" and "present e s"
  shows "inviteUsers us lvl s =
           (Rejected \<lparr>status = ''invalidAccess'', users = None,
              message = Some (''The specified accessLevel '' @ [CHR 0x22] @ lvl @ [CHR 0x22]
                                @ '' is not valid.'')\<rparr>, s)"
  using assms(1)
  by (simp add: inviteUsers_def hasValue_AccessLevel returnError_def returnPromise_def)

theorem inviteUsers_level_checked_first_witness:
  "''Full'' \<notin> {''read-only'', ''full'', ''limited''}
   \<and> present ''jeff@scalyr.com'' ScalyrBackend
   \<and> inviteUsers [''jeff@scalyr.com''] ''Full'' ScalyrBackend =
         (Rejected \<lparr>status = ''invalidAccess'', users = None,
            message = Some (''The specified accessLevel '' @ [CHR 0x22] @ ''Full'' @ [CHR 0x22]
                                @ '' is not valid.'')\<rparr>, ScalyrBackend)"
proof -
  have p: "present ''jeff@scalyr.com'' ScalyrBackend"
    by (simp add: present_def directory_def ScalyrBackend_eq)
  show ?thesis
    using p inviteUsers_level_checked_first
      [of "''Full''" "''jeff@scalyr.com''" "[''jeff@scalyr.com'']" ScalyrBackend]
    by simp
qed

end
